theory Spec2Isabelle
  imports Main "HOL-Library.Word"
begin

unbundle bit_operations_syntax

section \<open>Data model of sha3.go\<close>

type_synonym uint64 = "64 word"
type_synonym byte = "8 word"

text \<open>Run-time panics of Go that the functions below can raise.\<close>

datatype error = IndexOutOfRange | DivideByZero | MakeLenOutOfRange

text \<open>\<open>const RATE = 1088\<close>.\<close>

definition RATE :: int where
  "RATE = 1088"

text \<open>The round constants \<open>var RC = []uint64{...}\<close>.\<close>

definition RC :: "uint64 list" where
  "RC =
    [0x0000000000000001, 0x0000000000008082, 0x800000000000808A,
     0x8000000080008000, 0x000000000000808B, 0x0000000080000001,
     0x8000000080008081, 0x8000000000008009, 0x000000000000008A,
     0x0000000000000088, 0x0000000080008009, 0x000000008000000A,
     0x000000008000808B, 0x800000000000008B, 0x8000000000008089,
     0x8000000000008003, 0x8000000000008002, 0x8000000000000080,
     0x000000000000800A, 0x800000008000000A, 0x8000000080008081,
     0x8000000000008080, 0x0000000080000001, 0x8000000080008008]"

text \<open>The rotation offsets \<open>var r = [][]int{...}\<close>, read as \<open>r[x][y]\<close>.\<close>

definition r :: "int list list" where
  "r =
    [[0, 36, 3, 41, 18],
     [1, 44, 10, 45, 2],
     [62, 6, 43, 15, 61],
     [28, 55, 25, 21, 56],
     [27, 20, 39, 8, 14]]"

text \<open>\<open>type state struct { a [5][5]uint64 }\<close>: the outer list is indexed by the
  first coordinate. A Go array has a fixed size, which is the invariant \<open>wf_state\<close>.\<close>

record state =
  a :: "uint64 list list"

definition wf_state :: "state \<Rightarrow> bool" where
  "wf_state s \<longleftrightarrow> length (a s) = 5 \<and> list_all (\<lambda>row. length row = 5) (a s)"

text \<open>Reading \<open>s.a[x][y]\<close> and the assignment \<open>s.a[x][y] = v\<close>.\<close>

definition lane :: "state \<Rightarrow> nat \<Rightarrow> nat \<Rightarrow> uint64" where
  "lane s x y = a s ! x ! y"

definition set_lane :: "state \<Rightarrow> nat \<Rightarrow> nat \<Rightarrow> uint64 \<Rightarrow> state" where
  "set_lane s x y v = s\<lparr>a := (a s)[x := (a s ! x)[y := v]]\<rparr>"

text \<open>\<open>new(state)\<close>: every lane is zero.\<close>

definition new_state :: state where
  "new_state = \<lparr>a = replicate 5 (replicate 5 0)\<rparr>"

section \<open>The permutation\<close>

text \<open>The conversion \<open>uint(y)\<close> of a 64-bit \<open>int\<close> keeps the bit pattern.\<close>

definition uint_of_int :: "int \<Rightarrow> nat" where
  "uint_of_int y = nat (y mod 2 ^ 64)"

text \<open>\<open>(x << uint(y)) | (x >> uint(64-y))\<close>. A Go shift by 64 or more gives 0, as
  \<open>push_bit\<close> and \<open>drop_bit\<close> do on a 64-bit word.\<close>

definition rotl64 :: "uint64 \<Rightarrow> int \<Rightarrow> uint64" where
  "rotl64 x y = push_bit (uint_of_int y) x OR drop_bit (uint_of_int (64 - y)) x"

text \<open>First loop of \<open>theta\<close>: the column parities \<open>c\<close>.\<close>

definition theta_c :: "state \<Rightarrow> uint64 list" where
  "theta_c s =
     fold (\<lambda>x c. c[x := ((((lane s x 0 XOR lane s x 1) XOR lane s x 2) XOR lane s x 3)
                           XOR lane s x 4)])
       [0..<5] (replicate 5 0)"

text \<open>Second loop of \<open>theta\<close>: \<open>d[x]\<close> is stored, then XORed into the five lanes
  \<open>s.a[x][0..4]\<close>.\<close>

definition theta_col :: "uint64 list \<Rightarrow> nat \<Rightarrow> state \<times> uint64 list \<Rightarrow> state \<times> uint64 list" where
  "theta_col c x sd =
     (let d = (snd sd)[x := c ! ((x + 4) mod 5) XOR rotl64 (c ! ((x + 1) mod 5)) 1]
      in (fold (\<lambda>y s. set_lane s x y (lane s x y XOR d ! x)) [0..<5] (fst sd), d))"

definition theta :: "state \<Rightarrow> state" where
  "theta s = fst (fold (theta_col (theta_c s)) [0..<5] (s, replicate 5 0))"

text \<open>\<open>rhoPi\<close>: \<open>temp\<close> starts as \<open>s.a[1][0]\<close>; every lane, in the order of the two
  nested loops, receives the rotated \<open>temp\<close> and hands its old value on.\<close>

definition rhoPi_step :: "nat \<Rightarrow> nat \<Rightarrow> state \<times> uint64 \<Rightarrow> state \<times> uint64" where
  "rhoPi_step x y st =
     (let current = lane (fst st) x y
      in (set_lane (fst st) x y (rotl64 (snd st) (r ! x ! y)), current))"

definition rhoPi :: "state \<Rightarrow> state" where
  "rhoPi s =
     fst (fold (\<lambda>x st. fold (rhoPi_step x) [0..<5] st) [0..<5] (s, lane s 1 0))"

text \<open>\<open>chi\<close>: the first pair of loops copies the state into \<open>b\<close>, the second pair
  writes every lane from \<open>b\<close>.\<close>

definition chi_copy :: "state \<Rightarrow> state" where
  "chi_copy s =
     fold (\<lambda>x b. fold (\<lambda>y b. set_lane b x y (lane s x y)) [0..<5] b) [0..<5] new_state"

definition chi :: "state \<Rightarrow> state" where
  "chi s =
     (let b = chi_copy s
      in fold (\<lambda>x s. fold (\<lambda>y s. set_lane s x y
                (lane b x y XOR (NOT (lane b ((x + 1) mod 5) y) AND lane b ((x + 2) mod 5) y)))
              [0..<5] s) [0..<5] s)"

text \<open>\<open>iota\<close>: \<open>RC[round]\<close> panics when \<open>round\<close> is outside the slice.\<close>

definition iota :: "state \<Rightarrow> int \<Rightarrow> error + state" where
  "iota s round =
     (if 0 \<le> round \<and> round < int (length RC)
      then Inr (set_lane s 0 0 (lane s 0 0 XOR RC ! nat round))
      else Inl IndexOutOfRange)"

text \<open>\<open>keccakF1600\<close>: \<open>for i := 0; i < 24; i++\<close>.\<close>

function keccakF1600_loop :: "int \<Rightarrow> state \<Rightarrow> error + state" where
  "keccakF1600_loop i s =
     (if i < 24
      then (case iota (chi (rhoPi (theta s))) i of
              Inl e \<Rightarrow> Inl e
            | Inr s' \<Rightarrow> keccakF1600_loop (i + 1) s')
      else Inr s)"
  by pat_completeness auto
termination
  by (relation "measure (\<lambda>(i, s). nat (24 - i))") auto

declare keccakF1600_loop.simps [simp del]

definition keccakF1600 :: "state \<Rightarrow> error + state" where
  "keccakF1600 s = keccakF1600_loop 0 s"

section \<open>Padding\<close>

text \<open>Go's \<open>int\<close> is a signed 64-bit integer: \<open>wrap64\<close> is the two's complement
  wrap-around of its arithmetic, \<open>go_div\<close> and \<open>go_rem\<close> are \<open>/\<close> and \<open>%\<close>, which
  truncate towards zero.\<close>

definition wrap64 :: "int \<Rightarrow> int" where
  "wrap64 v = (v + 2 ^ 63) mod 2 ^ 64 - 2 ^ 63"

definition go_div :: "int \<Rightarrow> int \<Rightarrow> int" where
  "go_div m n = sgn m * sgn n * (\<bar>m\<bar> div \<bar>n\<bar>)"

definition go_rem :: "int \<Rightarrow> int \<Rightarrow> int" where
  "go_rem m n = sgn m * (\<bar>m\<bar> mod \<bar>n\<bar>)"

text \<open>\<open>pad\<close>. The panics of the source are results: \<open>%\<close> by a zero \<open>rate\<close>,
  \<open>make\<close> with a negative length, and \<open>padding[0]\<close> on an empty buffer.\<close>

definition pad :: "byte list \<Rightarrow> int \<Rightarrow> error + byte list" where
  "pad message rate =
     (if rate = 0 then Inl DivideByZero
      else
        let remaining0 = wrap64 (rate - go_rem (wrap64 (int (length message) * 8)) rate);
            remaining = (if remaining0 = 0 then rate else remaining0);
            padLen = go_div (wrap64 (remaining + 7)) 8
        in if padLen < 0 then Inl MakeLenOutOfRange
           else
             let padding0 = replicate (nat padLen) (0 :: byte)
             in if length padding0 = 0 then Inl IndexOutOfRange
                else
                  let padding1 = padding0[0 := 0x06];
                      padding2 = padding1[length padding1 - 1 :=
                                   padding1 ! (length padding1 - 1) OR 0x80]
                  in Inr (message @ padding2))"

section \<open>The sponge\<close>

text \<open>Body of the inner absorb loop for one \<open>j\<close>, at block start \<open>i\<close>.\<close>

definition absorb_byte :: "byte list \<Rightarrow> nat \<Rightarrow> nat \<Rightarrow> state \<Rightarrow> state" where
  "absorb_byte paddedMsg i j s =
     (if i + j < length paddedMsg
      then
        let byteIndex = i + j;
            wordIndex = j div 8;
            bytePosition = j mod 8
        in set_lane s (wordIndex mod 5) (wordIndex div 5)
             (lane s (wordIndex mod 5) (wordIndex div 5)
                XOR push_bit (bytePosition * 8) (ucast (paddedMsg ! byteIndex) :: uint64))
      else s)"

text \<open>\<open>for j := 0; j < RATE/8; j++\<close>.\<close>

definition absorb_block :: "byte list \<Rightarrow> nat \<Rightarrow> state \<Rightarrow> state" where
  "absorb_block paddedMsg i s = fold (absorb_byte paddedMsg i) [0..<136] s"

text \<open>\<open>for i := 0; i < len(paddedMsg); i += RATE / 8\<close>.\<close>

function absorb_loop :: "byte list \<Rightarrow> nat \<Rightarrow> state \<Rightarrow> error + state" where
  "absorb_loop paddedMsg i s =
     (if i < length paddedMsg
      then (case keccakF1600 (absorb_block paddedMsg i s) of
              Inl e \<Rightarrow> Inl e
            | Inr s' \<Rightarrow> absorb_loop paddedMsg (i + 136) s')
      else Inr s)"
  by pat_completeness auto
termination
  by (relation "measure (\<lambda>(p, i, s). length p - i)") auto

declare absorb_loop.simps [simp del]

text \<open>The inner output loop \<open>for i := 0; i < 8 && outIndex < 32; i++\<close>; it returns
  the new \<open>outIndex\<close> and \<open>output\<close>.\<close>

function squeeze_word :: "uint64 \<Rightarrow> nat \<Rightarrow> nat \<Rightarrow> byte list \<Rightarrow> nat \<times> byte list" where
  "squeeze_word word i outIndex output =
     (if i < 8 \<and> outIndex < 32
      then squeeze_word word (i + 1) (outIndex + 1)
             (output[outIndex := ucast (drop_bit (i * 8) word)])
      else (outIndex, output))"
  by pat_completeness auto
termination
  by (relation "measure (\<lambda>(w, i, oi, out). 8 - i)") auto

declare squeeze_word.simps [simp del]

lemma squeeze_word_outIndex:
  "fst (squeeze_word word i outIndex out) = outIndex + min (8 - i) (32 - outIndex)"
proof (induction word i outIndex out rule: squeeze_word.induct)
  case (1 word i outIndex out)
  show ?case
  proof (cases "i < 8 \<and> outIndex < 32")
    case True
    then show ?thesis
      using "1.IH" by (subst squeeze_word.simps) (auto simp: min_def)
  next
    case False
    then show ?thesis
      by (subst squeeze_word.simps) auto
  qed
qed

text \<open>The outer output loop \<open>for outIndex < 32\<close>.\<close>

function squeeze_loop :: "state \<Rightarrow> nat \<Rightarrow> nat \<Rightarrow> byte list \<Rightarrow> byte list" where
  "squeeze_loop s wordIndex outIndex output =
     (if outIndex < 32
      then
        let word = lane s (wordIndex mod 5) (wordIndex div 5);
            res = squeeze_word word 0 outIndex output
        in squeeze_loop s (wordIndex + 1) (fst res) (snd res)
      else output)"
  by pat_completeness auto
termination
  by (relation "measure (\<lambda>(s, wi, oi, out). 32 - oi)")
     (auto simp: squeeze_word_outIndex)

declare squeeze_loop.simps [simp del]

text \<open>\<open>sha3_256\<close>.\<close>

definition sha3_256 :: "byte list \<Rightarrow> error + byte list" where
  "sha3_256 message =
     (case pad message RATE of
        Inl e \<Rightarrow> Inl e
      | Inr paddedMsg \<Rightarrow>
          (case absorb_loop paddedMsg 0 new_state of
             Inl e \<Rightarrow> Inl e
           | Inr s \<Rightarrow> Inr (squeeze_loop s 0 0 (replicate 32 0))))"

section \<open>The steps as the specification words them\<close>

text \<open>Theta: the parity \<open>C[x]\<close> of a column and the value \<open>D[x]\<close>, with a genuine
  left rotation by one bit.\<close>

definition column_parity :: "state \<Rightarrow> nat \<Rightarrow> uint64" where
  "column_parity s x = lane s x 0 XOR lane s x 1 XOR lane s x 2 XOR lane s x 3 XOR lane s x 4"

definition theta_D :: "state \<Rightarrow> nat \<Rightarrow> uint64" where
  "theta_D s x =
     column_parity s ((x + 4) mod 5) XOR word_rotl 1 (column_parity s ((x + 1) mod 5))"

text \<open>The standard rotate step: every lane is rotated left by the offset of its own
  coordinates.\<close>

definition rho_spec :: "state \<Rightarrow> state" where
  "rho_spec s =
     \<lparr>a = map (\<lambda>x. map (\<lambda>y. word_rotl (nat (r ! x ! y)) (lane s x y)) [0..<5]) [0..<5]\<rparr>"

text \<open>The standard lane-permute step: the lane at \<open>(x, y)\<close> moves to
  \<open>(y, (2x + 3y) mod 5)\<close>.\<close>

definition pi_spec :: "state \<Rightarrow> state" where
  "pi_spec s =
     fold (\<lambda>x b. fold (\<lambda>y b. set_lane b y ((2 * x + 3 * y) mod 5) (lane s x y)) [0..<5] b)
       [0..<5] new_state"

text \<open>One round with its round constant, and the XOR of \<open>iota\<close> alone.\<close>

definition iota_lane :: "state \<Rightarrow> nat \<Rightarrow> state" where
  "iota_lane s i = set_lane s 0 0 (lane s 0 0 XOR RC ! i)"

definition keccak_round :: "nat \<Rightarrow> state \<Rightarrow> state" where
  "keccak_round i s = iota_lane (chi (rhoPi (theta s))) i"

text \<open>XOR of one value per first coordinate into all lanes with that coordinate.\<close>

definition xor_columns :: "uint64 list \<Rightarrow> state \<Rightarrow> state" where
  "xor_columns d s = \<lparr>a = map (\<lambda>(dx, row). map (\<lambda>v. v XOR dx) row) (zip d (a s))\<rparr>"

text \<open>Padding as the specification words it: the remaining bits, the length of the
  padding buffer as \<open>ceil(remaining/8)\<close>, and the buffer itself.\<close>

definition remaining_bits :: "nat \<Rightarrow> nat" where
  "remaining_bits n =
     (let remaining = 1088 - (8 * n) mod 1088 in if remaining = 0 then 1088 else remaining)"

definition padLen_spec :: "nat \<Rightarrow> nat" where
  "padLen_spec n = (remaining_bits n + 7) div 8"

definition padding_spec :: "nat \<Rightarrow> byte list" where
  "padding_spec k = (if k = 1 then [0x86] else [0x06] @ replicate (k - 2) 0 @ [0x80])"

text \<open>Absorption as the specification words it: the byte at offset \<open>j\<close> of a block goes,
  shifted by \<open>8 * (j mod 8)\<close>, into the lane of \<open>wordIndex = j / 8\<close>; the message is cut
  into blocks of 136 bytes; each block is XORed in and followed by one permutation.\<close>

definition xor_byte :: "byte list \<Rightarrow> nat \<Rightarrow> state \<Rightarrow> state" where
  "xor_byte block j s =
     set_lane s ((j div 8) mod 5) ((j div 8) div 5)
       (lane s ((j div 8) mod 5) ((j div 8) div 5)
          XOR push_bit (8 * (j mod 8)) (ucast (block ! j) :: uint64))"

definition absorb_block_spec :: "byte list \<Rightarrow> state \<Rightarrow> state" where
  "absorb_block_spec block s = fold (xor_byte block) [0..<136] s"

function blocks :: "byte list \<Rightarrow> byte list list" where
  "blocks p = (if p = [] then [] else take 136 p # blocks (drop 136 p))"
  by pat_completeness auto
termination
  by (relation "measure length") auto

declare blocks.simps [simp del]

fun absorb_spec :: "byte list list \<Rightarrow> state \<Rightarrow> error + state" where
  "absorb_spec [] s = Inr s"
| "absorb_spec (block # rest) s =
     (case keccakF1600 (absorb_block_spec block s) of
        Inl e \<Rightarrow> Inl e
      | Inr s' \<Rightarrow> absorb_spec rest s')"

text \<open>Squeezing as the specification words it: the 8 bytes of a lane, least significant
  first; the lanes in ascending \<open>wordIndex\<close> order until 32 bytes are there.\<close>

definition lane_bytes :: "uint64 \<Rightarrow> byte list" where
  "lane_bytes w = map (\<lambda>i. ucast (drop_bit (8 * i) w)) [0..<8]"

definition squeeze_spec :: "state \<Rightarrow> byte list" where
  "squeeze_spec s =
     take 32 (concat (map (\<lambda>wordIndex. lane_bytes (lane s (wordIndex mod 5) (wordIndex div 5)))
                        [0..<25]))"

text \<open>A message of 135 bytes.\<close>

definition m135 :: "byte list" where
  "m135 = replicate 135 0x61"

text \<open>The message \<open>"abc"\<close>.\<close>

definition abc :: "byte list" where
  "abc = [0x61, 0x62, 0x63]"

text \<open>A state whose only non-zero lane is \<open>(0, 0)\<close>.\<close>

definition s_ex :: state where
  "s_ex = \<lparr>a = [[1, 0, 0, 0, 0], [0, 0, 0, 0, 0], [0, 0, 0, 0, 0], [0, 0, 0, 0, 0],
                [0, 0, 0, 0, 0]]\<rparr>"

section \<open>Rotation\<close>

lemma rotl64_rot_nat:
  assumes "n < 64"
  shows "push_bit n x OR drop_bit (64 - n) x = word_rotl n (x :: uint64)"
proof (rule bit_word_eqI)
  fix k
  assume k: "k < LENGTH(64)"
  show "bit (push_bit n x OR drop_bit (64 - n) x) k = bit (word_rotl n x) k"
  proof (cases "n \<le> k")
    case True
    then have m: "(k + (64 - n)) mod 64 = k - n"
      using assms k by (simp add: mod_if)
    have hi: "\<not> bit x (64 - n + k)"
      using True by (auto dest: bit_imp_le_length)
    show ?thesis
      using True k assms m hi
      by (simp add: bit_or_iff bit_push_bit_iff bit_drop_bit_eq bit_word_rotl_iff)
  next
    case False
    then have m: "(k + (64 - n)) mod 64 = 64 - n + k"
      using assms k by simp
    show ?thesis
      using False k assms m
      by (simp add: bit_or_iff bit_push_bit_iff bit_drop_bit_eq bit_word_rotl_iff)
  qed
qed

lemma rotl64_word_rotl:
  assumes "0 \<le> y" and "y < 64"
  shows "rotl64 x y = word_rotl (nat y) x"
proof -
  define n where "n = nat y"
  have n: "n < 64" "y = int n"
    using assms by (auto simp: n_def)
  have u1: "uint_of_int y = n"
    using n by (simp add: uint_of_int_def)
  have u2: "uint_of_int (64 - y) = 64 - n"
    using n by (simp add: uint_of_int_def nat_diff_distrib)
  show ?thesis
    unfolding rotl64_def u1 u2 n_def[symmetric]
    using n(1) by (rule rotl64_rot_nat)
qed

text \<open>C10. \<open>rotl64(x, 0)\<close> is \<open>x\<close>: the right shift by 64 contributes 0. This is the
  amount that \<open>r[0][0]\<close> holds. For every amount from 0 to 63, \<open>rotl64\<close> is the left
  rotation of the 64-bit word.\<close>

theorem rotl64_rotation:
  "rotl64 x 0 = x \<and> rotl64 x (r ! 0 ! 0) = x \<and>
   (\<forall>y. 0 \<le> y \<and> y < 64 \<longrightarrow> rotl64 x y = word_rotl (nat y) x)"
proof -
  have "rotl64 x 0 = x"
    by (simp add: rotl64_def uint_of_int_def)
  moreover have "r ! 0 ! 0 = 0"
    by (simp add: r_def)
  ultimately show ?thesis
    by (simp add: rotl64_word_rotl)
qed

theorem rotl64_rotation_witness:
  "(0 :: int) \<le> 1 \<and> (1 :: int) < 64 \<and>
   rotl64 0x8000000000000001 1 = word_rotl (nat 1) 0x8000000000000001 \<and>
   rotl64 0x8000000000000001 1 = 3"
proof -
  have "rotl64 0x8000000000000001 1 = word_rotl (nat 1) 0x8000000000000001"
    using rotl64_rotation [of "0x8000000000000001"] by simp
  moreover have "rotl64 0x8000000000000001 1 = 3"
    by (simp add: rotl64_def uint_of_int_def)
  ultimately show ?thesis
    by simp
qed

section \<open>Closed forms of the steps on a state written out\<close>

lemma fold_upt5: "fold f [0..<5] s = f 4 (f 3 (f 2 (f 1 (f 0 s))))"
  by (simp add: upt_rec numeral_eq_Suc)

lemma nth5:
  "[v0, v1, v2, v3, v4] ! 0 = v0"
  "[v0, v1, v2, v3, v4] ! 1 = v1"
  "[v0, v1, v2, v3, v4] ! 2 = v2"
  "[v0, v1, v2, v3, v4] ! 3 = v3"
  "[v0, v1, v2, v3, v4] ! 4 = v4"
  by simp_all

lemma upd5:
  "[v0, v1, v2, v3, v4][0 := w] = [w, v1, v2, v3, v4]"
  "[v0, v1, v2, v3, v4][1 := w] = [v0, w, v2, v3, v4]"
  "[v0, v1, v2, v3, v4][2 := w] = [v0, v1, w, v3, v4]"
  "[v0, v1, v2, v3, v4][3 := w] = [v0, v1, v2, w, v4]"
  "[v0, v1, v2, v3, v4][4 := w] = [v0, v1, v2, v3, w]"
  by (simp_all add: numeral_eq_Suc)

lemma mod5:
  "1 mod 5 = (1::nat)" "2 mod 5 = (2::nat)" "4 mod 5 = (4::nat)"
  "(1 + 1) mod 5 = (2::nat)" "(2 + 1) mod 5 = (3::nat)"
  "(3 + 1) mod 5 = (4::nat)" "(4 + 1) mod 5 = (0::nat)"
  "(1 + 2) mod 5 = (3::nat)" "(2 + 2) mod 5 = (4::nat)"
  "(3 + 2) mod 5 = (0::nat)" "(4 + 2) mod 5 = (1::nat)"
  "(1 + 4) mod 5 = (0::nat)" "(2 + 4) mod 5 = (1::nat)"
  "(3 + 4) mod 5 = (2::nat)" "(4 + 4) mod 5 = (3::nat)"
  by simp_all

lemma replicate5: "replicate 5 v = [v, v, v, v, v]"
  by (simp add: numeral_eq_Suc)

lemma all_less5: "(\<forall>x<5. P x) \<longleftrightarrow> P 0 \<and> P 1 \<and> P 2 \<and> P 3 \<and> P (4::nat)"
proof -
  have "x < 5 \<longleftrightarrow> x = 0 \<or> x = 1 \<or> x = 2 \<or> x = 3 \<or> x = 4" for x :: nat
    by auto
  then show ?thesis
    by auto
qed

lemma length5E:
  assumes "length xs = 5"
  obtains v0 v1 v2 v3 v4 where "xs = [v0, v1, v2, v3, v4]"
  using assms by (auto simp: numeral_eq_Suc length_Suc_conv)

lemma wf_stateE:
  assumes "wf_state s"
  obtains a00 a01 a02 a03 a04 a10 a11 a12 a13 a14 a20 a21 a22 a23 a24
    a30 a31 a32 a33 a34 a40 a41 a42 a43 a44
  where "s = \<lparr>a = [[a00, a01, a02, a03, a04], [a10, a11, a12, a13, a14], [a20, a21, a22, a23, a24],
            [a30, a31, a32, a33, a34], [a40, a41, a42, a43, a44]]\<rparr>"
proof -
  from assms have "length (a s) = 5"
    by (simp add: wf_state_def)
  then obtain r0 r1 r2 r3 r4 where rows: "a s = [r0, r1, r2, r3, r4]"
    by (rule length5E)
  with assms have "length r0 = 5" "length r1 = 5" "length r2 = 5" "length r3 = 5" "length r4 = 5"
    by (simp_all add: wf_state_def)
  then obtain a00 a01 a02 a03 a04 a10 a11 a12 a13 a14 a20 a21 a22 a23 a24
      a30 a31 a32 a33 a34 a40 a41 a42 a43 a44
    where "r0 = [a00, a01, a02, a03, a04]" "r1 = [a10, a11, a12, a13, a14]"
      "r2 = [a20, a21, a22, a23, a24]" "r3 = [a30, a31, a32, a33, a34]"
      "r4 = [a40, a41, a42, a43, a44]"
    by (metis length5E)
  with rows have "s = \<lparr>a = [[a00, a01, a02, a03, a04], [a10, a11, a12, a13, a14], [a20, a21, a22, a23, a24],
            [a30, a31, a32, a33, a34], [a40, a41, a42, a43, a44]]\<rparr>"
    by (cases s) simp
  then show thesis
    by (rule that)
qed

lemma wf_state_mk:
  "wf_state \<lparr>a = [[a00, a01, a02, a03, a04], [a10, a11, a12, a13, a14], [a20, a21, a22, a23, a24],
            [a30, a31, a32, a33, a34], [a40, a41, a42, a43, a44]]\<rparr>"
  by (simp add: wf_state_def)

lemma lane_mk: "lane \<lparr>a = rows\<rparr> x y = rows ! x ! y"
  by (simp add: lane_def)

lemma set_lane_mk: "set_lane \<lparr>a = rows\<rparr> x y v = \<lparr>a = rows[x := (rows ! x)[y := v]]\<rparr>"
  by (simp add: set_lane_def)

lemma rhoPi_step_pair:
  "rhoPi_step x y (s, t) = (set_lane s x y (rotl64 t (r ! x ! y)), lane s x y)"
  by (simp add: rhoPi_step_def)

lemma theta_col_pair:
  "theta_col c x (s, d) =
     (fold (\<lambda>y s. set_lane s x y
              (lane s x y XOR d[x := c ! ((x + 4) mod 5) XOR rotl64 (c ! ((x + 1) mod 5)) 1] ! x))
        [0..<5] s,
      d[x := c ! ((x + 4) mod 5) XOR rotl64 (c ! ((x + 1) mod 5)) 1])"
  by (simp add: theta_col_def Let_def)

lemma theta_c_explicit:
  "theta_c \<lparr>a = [[a00, a01, a02, a03, a04], [a10, a11, a12, a13, a14], [a20, a21, a22, a23, a24],
            [a30, a31, a32, a33, a34], [a40, a41, a42, a43, a44]]\<rparr> =
   [(((a00 XOR a01) XOR a02) XOR a03) XOR a04,
    (((a10 XOR a11) XOR a12) XOR a13) XOR a14,
    (((a20 XOR a21) XOR a22) XOR a23) XOR a24,
    (((a30 XOR a31) XOR a32) XOR a33) XOR a34,
    (((a40 XOR a41) XOR a42) XOR a43) XOR a44]"
  by (simp only: theta_c_def fold_upt5 lane_mk nth5 upd5 replicate5)

lemma xor_columns_explicit:
  "xor_columns [d0, d1, d2, d3, d4] \<lparr>a = [[a00, a01, a02, a03, a04], [a10, a11, a12, a13, a14], [a20, a21, a22, a23, a24],
            [a30, a31, a32, a33, a34], [a40, a41, a42, a43, a44]]\<rparr> =
   \<lparr>a = [[a00 XOR d0, a01 XOR d0, a02 XOR d0, a03 XOR d0, a04 XOR d0],
         [a10 XOR d1, a11 XOR d1, a12 XOR d1, a13 XOR d1, a14 XOR d1],
         [a20 XOR d2, a21 XOR d2, a22 XOR d2, a23 XOR d2, a24 XOR d2],
         [a30 XOR d3, a31 XOR d3, a32 XOR d3, a33 XOR d3, a34 XOR d3],
         [a40 XOR d4, a41 XOR d4, a42 XOR d4, a43 XOR d4, a44 XOR d4]]\<rparr>"
  by (simp add: xor_columns_def)

lemma theta_fold_explicit:
  "fst (fold (theta_col [c0, c1, c2, c3, c4]) [0..<5] (\<lparr>a = [[a00, a01, a02, a03, a04], [a10, a11, a12, a13, a14], [a20, a21, a22, a23, a24],
            [a30, a31, a32, a33, a34], [a40, a41, a42, a43, a44]]\<rparr>, replicate 5 0)) =
   xor_columns [c4 XOR rotl64 c1 1, c0 XOR rotl64 c2 1, c1 XOR rotl64 c3 1,
                c2 XOR rotl64 c4 1, c3 XOR rotl64 c0 1] \<lparr>a = [[a00, a01, a02, a03, a04], [a10, a11, a12, a13, a14], [a20, a21, a22, a23, a24],
            [a30, a31, a32, a33, a34], [a40, a41, a42, a43, a44]]\<rparr>"
  by (simp only: xor_columns_explicit fold_upt5 theta_col_pair lane_mk set_lane_mk nth5 upd5
        replicate5 mod5 fst_conv add_0 One_nat_def[symmetric])

lemma rhoPi_explicit:
  "rhoPi \<lparr>a = [[a00, a01, a02, a03, a04], [a10, a11, a12, a13, a14], [a20, a21, a22, a23, a24],
            [a30, a31, a32, a33, a34], [a40, a41, a42, a43, a44]]\<rparr> =
    \<lparr>a = [[rotl64 a10 0, rotl64 a00 36, rotl64 a01 3, rotl64 a02 41, rotl64 a03 18],
          [rotl64 a04 1, rotl64 a10 44, rotl64 a11 10, rotl64 a12 45, rotl64 a13 2],
          [rotl64 a14 62, rotl64 a20 6, rotl64 a21 43, rotl64 a22 15, rotl64 a23 61],
          [rotl64 a24 28, rotl64 a30 55, rotl64 a31 25, rotl64 a32 21, rotl64 a33 56],
          [rotl64 a34 27, rotl64 a40 20, rotl64 a41 39, rotl64 a42 8, rotl64 a43 14]]\<rparr>"
  by (simp only: rhoPi_def fold_upt5 rhoPi_step_pair r_def lane_mk set_lane_mk nth5 upd5 fst_conv)

lemma chi_copy_explicit:
  "chi_copy \<lparr>a = [[a00, a01, a02, a03, a04], [a10, a11, a12, a13, a14], [a20, a21, a22, a23, a24],
            [a30, a31, a32, a33, a34], [a40, a41, a42, a43, a44]]\<rparr> = \<lparr>a = [[a00, a01, a02, a03, a04], [a10, a11, a12, a13, a14], [a20, a21, a22, a23, a24],
            [a30, a31, a32, a33, a34], [a40, a41, a42, a43, a44]]\<rparr>"
  by (simp only: chi_copy_def new_state_def fold_upt5 lane_mk set_lane_mk nth5 upd5 replicate5)

lemma chi_explicit:
  "chi \<lparr>a = [[a00, a01, a02, a03, a04], [a10, a11, a12, a13, a14], [a20, a21, a22, a23, a24],
            [a30, a31, a32, a33, a34], [a40, a41, a42, a43, a44]]\<rparr> =
    \<lparr>a = [[a00 XOR (NOT a10 AND a20), a01 XOR (NOT a11 AND a21), a02 XOR (NOT a12 AND a22),
           a03 XOR (NOT a13 AND a23), a04 XOR (NOT a14 AND a24)],
          [a10 XOR (NOT a20 AND a30), a11 XOR (NOT a21 AND a31), a12 XOR (NOT a22 AND a32),
           a13 XOR (NOT a23 AND a33), a14 XOR (NOT a24 AND a34)],
          [a20 XOR (NOT a30 AND a40), a21 XOR (NOT a31 AND a41), a22 XOR (NOT a32 AND a42),
           a23 XOR (NOT a33 AND a43), a24 XOR (NOT a34 AND a44)],
          [a30 XOR (NOT a40 AND a00), a31 XOR (NOT a41 AND a01), a32 XOR (NOT a42 AND a02),
           a33 XOR (NOT a43 AND a03), a34 XOR (NOT a44 AND a04)],
          [a40 XOR (NOT a00 AND a10), a41 XOR (NOT a01 AND a11), a42 XOR (NOT a02 AND a12),
           a43 XOR (NOT a03 AND a13), a44 XOR (NOT a04 AND a14)]]\<rparr>"
  by (simp only: chi_def Let_def chi_copy_explicit fold_upt5 lane_mk set_lane_mk nth5 upd5 mod5
        add_0 One_nat_def[symmetric])

lemma iota_lane_explicit:
  "iota_lane \<lparr>a = [[a00, a01, a02, a03, a04], [a10, a11, a12, a13, a14], [a20, a21, a22, a23, a24],
            [a30, a31, a32, a33, a34], [a40, a41, a42, a43, a44]]\<rparr> i =
   \<lparr>a = [[a00 XOR RC ! i, a01, a02, a03, a04], [a10, a11, a12, a13, a14],
         [a20, a21, a22, a23, a24], [a30, a31, a32, a33, a34], [a40, a41, a42, a43, a44]]\<rparr>"
  by (simp only: iota_lane_def lane_mk set_lane_mk nth5 upd5)

lemma rotl64_one: "rotl64 x 1 = word_rotl 1 x"
  using rotl64_word_rotl [of 1 x] by simp

lemma wf_s_ex: "wf_state s_ex"
  by (simp add: s_ex_def wf_state_def)

section \<open>Theta\<close>

text \<open>C6. On every 5 by 5 state, \<open>theta\<close> XORs into each lane \<open>A[x][y]\<close> the value
  \<open>D[x] = C[(x+4) mod 5] XOR rotate-left(C[(x+1) mod 5], 1)\<close>, where every \<open>C\<close> is the
  XOR of the five lanes of its column in the state before the step.\<close>

theorem theta_spec:
  assumes "wf_state s"
  shows "wf_state (theta s) \<and> (\<forall>x<5. \<forall>y<5. lane (theta s) x y = lane s x y XOR theta_D s x)"
proof -
  from assms obtain a00 a01 a02 a03 a04 a10 a11 a12 a13 a14 a20 a21 a22 a23 a24
    a30 a31 a32 a33 a34 a40 a41 a42 a43 a44
    where s: "s = \<lparr>a = [[a00, a01, a02, a03, a04], [a10, a11, a12, a13, a14],
        [a20, a21, a22, a23, a24], [a30, a31, a32, a33, a34], [a40, a41, a42, a43, a44]]\<rparr>"
    by (rule wf_stateE)
  show ?thesis
    unfolding s theta_def theta_c_explicit theta_fold_explicit xor_columns_explicit
    by (simp add: wf_state_mk all_less5 lane_mk theta_D_def column_parity_def rotl64_one
          ac_simps)
qed

theorem theta_spec_witness:
  "wf_state s_ex \<and> wf_state (theta s_ex) \<and>
   lane (theta s_ex) 1 3 = lane s_ex 1 3 XOR theta_D s_ex 1 \<and> theta_D s_ex 1 = 1"
proof -
  have "theta_D s_ex 1 = 1"
    by (simp add: theta_D_def column_parity_def s_ex_def lane_mk)
  then show ?thesis
    using theta_spec [OF wf_s_ex] wf_s_ex by simp
qed

section \<open>Chi\<close>

text \<open>C7. On every 5 by 5 state, \<open>chi\<close> gives each lane the value
  \<open>A[x][y] XOR ((NOT A[(x+1) mod 5][y]) AND A[(x+2) mod 5][y])\<close>, all three operands read
  from the state before the step.\<close>

theorem chi_spec:
  assumes "wf_state s"
  shows "wf_state (chi s) \<and>
    (\<forall>x<5. \<forall>y<5. lane (chi s) x y =
       lane s x y XOR (NOT (lane s ((x + 1) mod 5) y) AND lane s ((x + 2) mod 5) y))"
proof -
  from assms obtain a00 a01 a02 a03 a04 a10 a11 a12 a13 a14 a20 a21 a22 a23 a24
    a30 a31 a32 a33 a34 a40 a41 a42 a43 a44
    where s: "s = \<lparr>a = [[a00, a01, a02, a03, a04], [a10, a11, a12, a13, a14],
        [a20, a21, a22, a23, a24], [a30, a31, a32, a33, a34], [a40, a41, a42, a43, a44]]\<rparr>"
    by (rule wf_stateE)
  show ?thesis
    unfolding s chi_explicit
    by (simp add: wf_state_mk all_less5 lane_mk)
qed

theorem chi_spec_witness:
  "wf_state s_ex \<and> wf_state (chi s_ex) \<and>
   lane (chi s_ex) 4 0 =
     lane s_ex 4 0 XOR (NOT (lane s_ex ((4 + 1) mod 5) 0) AND lane s_ex ((4 + 2) mod 5) 0) \<and>
   lane (chi s_ex) 3 0 = 1"
proof -
  have "lane (chi s_ex) 3 0 = 1"
    unfolding s_ex_def chi_explicit by (simp add: lane_mk)
  then show ?thesis
    using chi_spec [OF wf_s_ex] wf_s_ex by simp
qed

section \<open>Iota\<close>

lemma iota_total: "i < 24 \<Longrightarrow> iota s (int i) = Inr (iota_lane s i)"
  by (simp add: iota_def iota_lane_def RC_def)

text \<open>C8. On every 5 by 5 state and for every round index from 0 to 23, \<open>iota\<close> returns
  the state with \<open>RC[i]\<close> XORed into lane \<open>(0, 0)\<close> and the other 24 lanes as they were.\<close>

theorem iota_spec:
  assumes "wf_state s" and "0 \<le> i" and "i < 24"
  shows "\<exists>s'. iota s i = Inr s' \<and> wf_state s' \<and> lane s' 0 0 = lane s 0 0 XOR RC ! nat i \<and>
           (\<forall>x<5. \<forall>y<5. (x, y) \<noteq> (0, 0) \<longrightarrow> lane s' x y = lane s x y)"
proof -
  from assms(1) obtain a00 a01 a02 a03 a04 a10 a11 a12 a13 a14 a20 a21 a22 a23 a24
    a30 a31 a32 a33 a34 a40 a41 a42 a43 a44
    where s: "s = \<lparr>a = [[a00, a01, a02, a03, a04], [a10, a11, a12, a13, a14],
        [a20, a21, a22, a23, a24], [a30, a31, a32, a33, a34], [a40, a41, a42, a43, a44]]\<rparr>"
    by (rule wf_stateE)
  have "iota s i = Inr (iota_lane s (nat i))"
    using iota_total [of "nat i" s] assms(2,3) by simp
  moreover have "wf_state (iota_lane s (nat i))"
    unfolding s iota_lane_explicit by (simp add: wf_state_def)
  moreover have "lane (iota_lane s (nat i)) 0 0 = lane s 0 0 XOR RC ! nat i"
    unfolding s iota_lane_explicit by (simp add: lane_mk)
  moreover have "\<forall>x<5. \<forall>y<5. (x, y) \<noteq> (0, 0) \<longrightarrow> lane (iota_lane s (nat i)) x y = lane s x y"
    unfolding s iota_lane_explicit by (simp add: all_less5 lane_mk)
  ultimately show ?thesis
    by blast
qed

theorem iota_spec_witness:
  "wf_state s_ex \<and> (0 :: int) \<le> 1 \<and> (1 :: int) < 24 \<and>
   (\<exists>s'. iota s_ex 1 = Inr s' \<and> lane s' 0 0 = 0x8083 \<and> lane s' 0 1 = lane s_ex 0 1)"
proof -
  have rc: "lane s_ex 0 0 XOR RC ! nat 1 = 0x8083"
    by (simp add: s_ex_def lane_mk RC_def)
  from iota_spec [OF wf_s_ex, of 1] obtain s'
    where "iota s_ex 1 = Inr s'" "lane s' 0 0 = lane s_ex 0 0 XOR RC ! nat 1"
      "\<forall>x<5. \<forall>y<5. (x, y) \<noteq> (0, 0) \<longrightarrow> lane s' x y = lane s_ex x y"
    by auto
  then have "iota s_ex 1 = Inr s' \<and> lane s' 0 0 = 0x8083 \<and> lane s' 0 1 = lane s_ex 0 1"
    using rc by simp
  then have "\<exists>s'. iota s_ex 1 = Inr s' \<and> lane s' 0 0 = 0x8083 \<and> lane s' 0 1 = lane s_ex 0 1"
    by (rule exI)
  then show ?thesis
    using wf_s_ex by simp
qed

section \<open>The 24 rounds\<close>

lemma keccakF1600_loop_fold:
  "i \<le> 24 \<Longrightarrow> keccakF1600_loop (int i) s = Inr (fold keccak_round [i..<24] s)"
proof (induction "24 - i" arbitrary: i s)
  case 0
  then have "i = 24" by simp
  then show ?case
    by (subst keccakF1600_loop.simps) simp
next
  case (Suc n)
  then have i: "i < 24" and n: "n = 24 - Suc i" and le: "Suc i \<le> 24"
    by simp_all
  have step: "keccakF1600_loop (int i) s = keccakF1600_loop (int (Suc i)) (keccak_round i s)"
    using i by (subst keccakF1600_loop.simps) (simp add: iota_total keccak_round_def add.commute)
  have "[i..<24] = i # [Suc i..<24]"
    using i by (simp add: upt_conv_Cons)
  then show ?case
    using Suc.hyps(1) [OF n le] step by simp
qed

lemma keccakF1600_total: "keccakF1600 s = Inr (fold keccak_round [0..<24] s)"
  using keccakF1600_loop_fold [of 0 s] by (simp add: keccakF1600_def)

text \<open>C9. \<open>keccakF1600\<close> returns a state on every input, never an error: the result of
  the 24 rounds with indices 0, 1, ..., 23 in this order, where round \<open>i\<close> is \<open>theta\<close>,
  \<open>rhoPi\<close>, \<open>chi\<close> and then \<open>iota\<close> with index \<open>i\<close>, which does not fail there.\<close>

theorem keccakF1600_rounds:
  "keccakF1600 s = Inr (fold keccak_round [0..<24] s) \<and>
   [0..<24] = [0, 1, 2, 3, 4, 5, 6, 7, 8, 9, 10, 11, 12, 13, 14, 15, 16, 17, 18, 19, 20, 21, 22, 23] \<and>
   (\<forall>i<24. \<forall>t. iota (chi (rhoPi (theta t))) (int i) = Inr (keccak_round i t))"
proof -
  have "[0..<24] = [0, 1, 2, 3, 4, 5, 6, 7, 8, 9, 10, 11, 12, 13, 14, 15, 16, 17, 18, 19, 20, 21, 22, 23]"
    by (simp add: upt_rec numeral_eq_Suc)
  then show ?thesis
    using keccakF1600_total [of s] by (simp add: iota_total keccak_round_def)
qed

theorem keccakF1600_rounds_witness:
  "(7 :: nat) < 24 \<and> iota (chi (rhoPi (theta s_ex))) (int 7) = Inr (keccak_round 7 s_ex) \<and>
   keccakF1600 s_ex = Inr (fold keccak_round [0..<24] s_ex)"
proof -
  have less: "(7 :: nat) < 24"
    by simp
  from keccakF1600_rounds [of s_ex]
  have all: "\<forall>i<24. \<forall>t. iota (chi (rhoPi (theta t))) (int i) = Inr (keccak_round i t)"
    and run: "keccakF1600 s_ex = Inr (fold keccak_round [0..<24] s_ex)"
    by blast+
  from all less have "iota (chi (rhoPi (theta s_ex))) (int 7) = Inr (keccak_round 7 s_ex)"
    by blast
  with less run show ?thesis
    by blast
qed

section \<open>Rho and pi\<close>

lemma upt5: "[0..<5] = [0, 1, 2, 3, 4]"
  by (simp add: upt_rec numeral_eq_Suc)

lemma rho_spec_explicit:
  "rho_spec \<lparr>a = [[a00, a01, a02, a03, a04], [a10, a11, a12, a13, a14], [a20, a21, a22, a23, a24],
            [a30, a31, a32, a33, a34], [a40, a41, a42, a43, a44]]\<rparr> =
    \<lparr>a = [[word_rotl 0 a00, word_rotl 36 a01, word_rotl 3 a02, word_rotl 41 a03, word_rotl 18 a04],
          [word_rotl 1 a10, word_rotl 44 a11, word_rotl 10 a12, word_rotl 45 a13, word_rotl 2 a14],
          [word_rotl 62 a20, word_rotl 6 a21, word_rotl 43 a22, word_rotl 15 a23, word_rotl 61 a24],
          [word_rotl 28 a30, word_rotl 55 a31, word_rotl 25 a32, word_rotl 21 a33, word_rotl 56 a34],
          [word_rotl 27 a40, word_rotl 20 a41, word_rotl 39 a42, word_rotl 8 a43, word_rotl 14 a44]]\<rparr>"
  by (simp add: rho_spec_def upt5 lane_mk r_def)

lemma pi_spec_explicit:
  "pi_spec \<lparr>a = [[a00, a01, a02, a03, a04], [a10, a11, a12, a13, a14], [a20, a21, a22, a23, a24],
            [a30, a31, a32, a33, a34], [a40, a41, a42, a43, a44]]\<rparr> =
    \<lparr>a = [[a00, a30, a10, a40, a20],
          [a11, a41, a21, a01, a31],
          [a22, a02, a32, a12, a42],
          [a33, a13, a43, a23, a03],
          [a44, a24, a04, a34, a14]]\<rparr>"
proof -
  have "pi_spec \<lparr>a = [[a00, a01, a02, a03, a04], [a10, a11, a12, a13, a14], [a20, a21, a22, a23, a24],
            [a30, a31, a32, a33, a34], [a40, a41, a42, a43, a44]]\<rparr> =
    fold (\<lambda>x b. fold (\<lambda>y b. set_lane b y ((2 * x + 3 * y) mod 5)
        ([[a00, a01, a02, a03, a04], [a10, a11, a12, a13, a14], [a20, a21, a22, a23, a24],
            [a30, a31, a32, a33, a34], [a40, a41, a42, a43, a44]] ! x ! y)) [0..<5] b) [0..<5] \<lparr>a = replicate 5 (replicate 5 0)\<rparr>"
    by (simp only: pi_spec_def new_state_def lane_mk)
  also have "\<dots> = \<lparr>a = [[a00, a30, a10, a40, a20], [a11, a41, a21, a01, a31],
      [a22, a02, a32, a12, a42], [a33, a13, a43, a23, a03], [a44, a24, a04, a34, a14]]\<rparr>"
    unfolding fold_upt5 replicate5 by (simp add: set_lane_mk upd5 nth5)
  finally show ?thesis .
qed

text \<open>C2, at the state \<open>s_ex\<close>: the standard rotate step followed by the standard
  lane-permute step leaves lane \<open>(0, 0)\<close>, whose offset is 0, in place, with value 1;
  \<open>rhoPi\<close> writes the rotated lane \<open>(1, 0)\<close> there, which is 0. The two states
  differ.\<close>

theorem rhoPi_not_standard:
  "lane (rhoPi s_ex) 0 0 = 0 \<and> lane (pi_spec (rho_spec s_ex)) 0 0 = 1 \<and>
   rhoPi s_ex \<noteq> pi_spec (rho_spec s_ex)"
proof -
  have 1: "lane (rhoPi s_ex) 0 0 = 0"
    unfolding s_ex_def rhoPi_explicit by (simp add: lane_mk rotl64_def)
  have 2: "lane (pi_spec (rho_spec s_ex)) 0 0 = 1"
    unfolding s_ex_def rho_spec_explicit pi_spec_explicit
    by (simp add: lane_mk bit_word_rotl_iff bit_eq_iff)
  from 1 2 show ?thesis
    by auto
qed

section \<open>Padding to the rate\<close>

lemma wrap64_id: "- (2 ^ 63) \<le> v \<Longrightarrow> v < 2 ^ 63 \<Longrightarrow> wrap64 v = v"
  by (simp add: wrap64_def)

lemma go_rem_nonneg: "0 \<le> m \<Longrightarrow> 0 < n \<Longrightarrow> go_rem m n = m mod n"
  by (cases "m = 0") (simp_all add: go_rem_def)

lemma go_div_nonneg: "0 \<le> m \<Longrightarrow> 0 < n \<Longrightarrow> go_div m n = m div n"
  by (cases "m = 0") (simp_all add: go_div_def)

lemma padLen_spec_eq: "padLen_spec n = 136 - n mod 136"
proof -
  have "(8 * n) mod 1088 = 8 * (n mod 136)"
    by (simp add: mult_mod_right)
  moreover have "n mod 136 < 136"
    by simp
  ultimately show ?thesis
    unfolding padLen_spec_def remaining_bits_def Let_def by auto
qed

lemma padding_buffer:
  assumes "0 < k"
  shows "((replicate k (0 :: byte))[0 := 0x06])
           [k - Suc 0 := ((replicate k (0 :: byte))[0 := 0x06]) ! (k - Suc 0) OR 0x80] =
         padding_spec k"
proof (cases "k = 1")
  case True
  then show ?thesis
    by (simp add: padding_spec_def)
next
  case False
  with assms obtain j where k: "k = Suc (Suc j)"
    by (metis One_nat_def Suc_pred less_Suc0 not_gr_zero)
  have "replicate (Suc j) (0 :: byte) = replicate j 0 @ [0]"
    by (simp add: replicate_append_same)
  then show ?thesis
    unfolding k padding_spec_def by (simp add: list_update_append nth_append)
qed

lemma pad_RATE:
  assumes "length m < 2 ^ 60"
  shows "pad m RATE = Inr (m @ padding_spec (padLen_spec (length m)))"
proof -
  define n where "n = length m"
  have n: "int n * 8 < 2 ^ 63" "0 \<le> int n * 8"
    using assms by (simp_all add: n_def)
  have w1: "wrap64 (int n * 8) = int n * 8"
    using n by (intro wrap64_id) simp_all
  have rem: "go_rem (int n * 8) 1088 = int ((8 * n) mod 1088)"
    using n by (simp add: go_rem_nonneg zmod_int mult.commute)
  define q where "q = (8 * n) mod 1088"
  have q: "q < 1088" "q = 8 * (n mod 136)"
    by (simp_all add: q_def mult_mod_right)
  have w2: "wrap64 (1088 - int q) = 1088 - int q"
    using q(1) by (intro wrap64_id) simp_all
  have nz: "1088 - int q \<noteq> 0"
    using q(1) by simp
  have w3: "wrap64 (1095 - int q) = 1095 - int q"
    using q(1) by (intro wrap64_id) simp_all
  have dv: "go_div (1095 - int q) 8 = int (padLen_spec n)"
  proof -
    have "go_div (1095 - int q) 8 = (1095 - int q) div 8"
      using q(1) by (intro go_div_nonneg) simp_all
    also have "\<dots> = int (136 - n mod 136)"
      using q(2) by (simp add: of_nat_diff)
    finally show ?thesis
      by (simp add: padLen_spec_eq)
  qed
  have pos: "0 < padLen_spec n"
    by (simp add: padLen_spec_eq)
  show ?thesis
    unfolding pad_def RATE_def n_def[symmetric] w1 rem q_def[symmetric] w2 Let_def
    using nz pos by (simp add: w3 dv padding_buffer del: replicate_eq_replicate)
qed

lemma length_padding_spec: "0 < k \<Longrightarrow> length (padding_spec k) = k"
  by (auto simp: padding_spec_def)

lemma padded_length: "(n + padLen_spec n) mod 136 = 0"
proof -
  have "n mod 136 \<le> n" "n mod 136 < 136"
    by simp_all
  then have "n + (136 - n mod 136) = (n - n mod 136) + 136"
    by simp
  also have "\<dots> = 136 * (n div 136) + 136"
    by (simp add: minus_mod_eq_mult_div)
  finally show ?thesis
    by (simp add: padLen_spec_eq)
qed

text \<open>C3. For a message \<open>m\<close> (a Go slice, whose length is far below \<open>2^60\<close>),
  \<open>pad(m, 1088)\<close> returns \<open>m\<close> followed by a buffer of \<open>padLen = ceil(remaining/8)\<close>
  bytes, at least one: the single byte \<open>0x86\<close> when \<open>padLen = 1\<close>, otherwise \<open>0x06\<close>
  first, \<open>0x80\<close> last and zeros between. The bit length of the result is a multiple of
  1088. A length of 135 gives 136 bytes, lengths of 136 and of 137 give 272 bytes.\<close>

theorem pad_spec:
  assumes "length m < 2 ^ 60"
  shows "pad m 1088 = Inr (m @ padding_spec (padLen_spec (length m))) \<and>
         length (padding_spec (padLen_spec (length m))) = padLen_spec (length m) \<and>
         0 < padLen_spec (length m) \<and>
         padding_spec (padLen_spec (length m)) ! 0 =
           (if padLen_spec (length m) = 1 then 0x86 else 0x06) \<and>
         last (padding_spec (padLen_spec (length m))) =
           (if padLen_spec (length m) = 1 then 0x86 else 0x80) \<and>
         (8 * length (m @ padding_spec (padLen_spec (length m)))) mod 1088 = 0 \<and>
         135 + padLen_spec 135 = 136 \<and> 136 + padLen_spec 136 = 272 \<and>
         137 + padLen_spec 137 = 272"
proof -
  define k where "k = padLen_spec (length m)"
  have pos: "0 < k"
    by (simp add: k_def padLen_spec_eq)
  have len: "length (padding_spec k) = k"
    using pos by (rule length_padding_spec)
  have "(length m + k) mod 136 = 0"
    unfolding k_def by (rule padded_length)
  moreover have "(8 * (length m + k)) mod (8 * 136) = 8 * ((length m + k) mod 136)"
    by (simp only: mult_mod_right)
  ultimately have bits: "(8 * length (m @ padding_spec k)) mod 1088 = 0"
    by (simp add: len)
  have first: "padding_spec k ! 0 = (if k = 1 then 0x86 else 0x06)"
    by (simp add: padding_spec_def)
  have final: "last (padding_spec k) = (if k = 1 then 0x86 else 0x80)"
    by (simp add: padding_spec_def)
  have "pad m 1088 = Inr (m @ padding_spec k)"
    using pad_RATE [OF assms] by (simp add: RATE_def k_def)
  then show ?thesis
    using pos len bits first final unfolding k_def by (simp add: padLen_spec_eq)
qed

theorem pad_spec_witness:
  "length m135 < 2 ^ 60 \<and> length m135 = 135 \<and> pad m135 1088 = Inr (m135 @ [0x86]) \<and>
   (8 * length (m135 @ [0x86 :: byte])) mod 1088 = 0"
proof -
  have len: "length m135 = 135"
    by (simp add: m135_def)
  then have small: "length m135 < 2 ^ 60"
    by simp
  have "padding_spec (padLen_spec 135) = [0x86]"
    by (simp add: padLen_spec_eq padding_spec_def)
  then have "pad m135 1088 = Inr (m135 @ [0x86])"
    using pad_spec [OF small] by (simp only: len)
  then show ?thesis
    using small len by simp
qed

section \<open>Absorbing\<close>

lemma absorb_byte_xor_byte:
  assumes "i + 136 \<le> length p" and "j < 136"
  shows "absorb_byte p i j = xor_byte (take 136 (drop i p)) j"
  using assms by (intro ext) (simp add: absorb_byte_def xor_byte_def Let_def mult.commute)

lemma absorb_block_full:
  assumes "i + 136 \<le> length p"
  shows "absorb_block p i s = absorb_block_spec (take 136 (drop i p)) s"
  unfolding absorb_block_def absorb_block_spec_def
  by (rule fold_cong) (simp_all add: absorb_byte_xor_byte [OF assms])

lemma multiple_step:
  assumes "n mod 136 = 0" and "i mod 136 = 0" and "i < (n :: nat)"
  shows "i + 136 \<le> n"
proof -
  from assms(1,2) obtain a b where "n = 136 * a" "i = 136 * b"
    by (auto elim!: dvdE simp: mod_eq_0_iff_dvd)
  with assms(3) show ?thesis
    by auto
qed

lemma absorb_loop_blocks:
  "length p mod 136 = 0 \<Longrightarrow> i mod 136 = 0 \<Longrightarrow>
   absorb_loop p i s = absorb_spec (blocks (drop i p)) s"
proof (induction p i s rule: absorb_loop.induct)
  case (1 p i s)
  show ?case
  proof (cases "i < length p")
    case False
    then show ?thesis
      by (subst absorb_loop.simps, subst blocks.simps) simp
  next
    case True
    with "1.prems" have full: "i + 136 \<le> length p"
      by (intro multiple_step)
    have ne: "drop i p \<noteq> []"
      using True by simp
    have next_mod: "(i + 136) mod 136 = 0"
      using "1.prems"(2) by simp
    have blk: "blocks (drop i p) = take 136 (drop i p) # blocks (drop (i + 136) p)"
      using ne by (subst blocks.simps) (simp add: add.commute)
    show ?thesis
    proof (cases "keccakF1600 (absorb_block p i s)")
      case (Inl e)
      then show ?thesis
        using True by (subst absorb_loop.simps) (simp add: blk absorb_block_full [OF full, symmetric])
    next
      case (Inr s')
      have "absorb_loop p (i + 136) s' = absorb_spec (blocks (drop (i + 136) p)) s'"
        using "1.IH" [OF True Inr "1.prems"(1) next_mod] .
      then show ?thesis
        using True Inr
        by (subst absorb_loop.simps) (simp add: blk absorb_block_full [OF full, symmetric])
    qed
  qed
qed

lemma concat_blocks: "concat (blocks p) = p"
proof (induction p rule: blocks.induct)
  case (1 p)
  show ?case
  proof (cases "p = []")
    case True
    then show ?thesis by (subst blocks.simps) simp
  next
    case False
    then show ?thesis
      using "1.IH" by (subst blocks.simps) simp
  qed
qed

lemma length_blocks:
  "length p mod 136 = 0 \<Longrightarrow> b \<in> set (blocks p) \<Longrightarrow> length b = 136"
proof (induction p rule: blocks.induct)
  case (1 p)
  show ?case
  proof (cases "p = []")
    case True
    with "1.prems" show ?thesis by (subst (asm) blocks.simps) simp
  next
    case False
    then have "0 < length p" by simp
    with "1.prems"(1) have ge: "136 \<le> length p"
      using multiple_step [of "length p" 0] by simp
    then have rest: "length (drop 136 p) mod 136 = 0"
      using "1.prems"(1) le_mod_geq [of 136 "length p"] by simp
    from "1.prems"(2) False have "b = take 136 p \<or> b \<in> set (blocks (drop 136 p))"
      by (subst (asm) blocks.simps) simp
    then show ?thesis
      using "1.IH" [OF False rest] ge by auto
  qed
qed

lemma absorb_spec_total:
  "absorb_spec bs s = Inr (fold (\<lambda>b t. fold keccak_round [0..<24] (absorb_block_spec b t)) bs s)"
  by (induction bs arbitrary: s) (simp_all add: keccakF1600_total)

lemma absorb_spec_snoc:
  "absorb_spec (bs @ [b]) s =
     (case absorb_spec bs s of Inl e \<Rightarrow> Inl e | Inr t \<Rightarrow> keccakF1600 (absorb_block_spec b t))"
  by (simp add: absorb_spec_total keccakF1600_total)

lemma pad_nonempty_multiple:
  assumes "length m < 2 ^ 60"
  obtains p where "pad m 1088 = Inr p" and "p \<noteq> []" and "length p mod 136 = 0"
proof -
  define k where "k = padLen_spec (length m)"
  have pos: "0 < k"
    by (simp add: k_def padLen_spec_eq)
  have "pad m 1088 = Inr (m @ padding_spec k)"
    using pad_RATE [OF assms] by (simp add: RATE_def k_def)
  moreover have "m @ padding_spec k \<noteq> []"
    using pos length_padding_spec [of k] by auto
  moreover have "length (m @ padding_spec k) mod 136 = 0"
    using padded_length [of "length m"] pos by (simp add: length_padding_spec k_def)
  ultimately show thesis
    by (rule that)
qed

text \<open>C4. The padded message of \<open>sha3_256\<close> is not empty and its length is a multiple
  of 136, so it is the concatenation of blocks of exactly 136 bytes and the guard
  \<open>i+j < len(paddedMsg)\<close> holds at every block start \<open>i\<close> and offset \<open>j\<close>. The absorb
  loop does what the specification says, block by block: every byte of the block is XORed,
  shifted by \<open>8 * (j mod 8)\<close>, into the lane \<open>((j/8) mod 5, (j/8) div 5)\<close>, and
  \<open>keccakF1600\<close> runs once after each block.\<close>

theorem absorb_full_blocks:
  assumes "length m < 2 ^ 60"
  shows "\<exists>p. pad m 1088 = Inr p \<and> p \<noteq> [] \<and> length p mod 136 = 0 \<and>
           concat (blocks p) = p \<and> (\<forall>b\<in>set (blocks p). length b = 136) \<and>
           (\<forall>i j. i < length p \<and> i mod 136 = 0 \<and> j < 136 \<longrightarrow> i + j < length p) \<and>
           absorb_loop p 0 new_state = absorb_spec (blocks p) new_state \<and>
           sha3_256 m =
             (case absorb_spec (blocks p) new_state of
                Inl e \<Rightarrow> Inl e
              | Inr s \<Rightarrow> Inr (squeeze_loop s 0 0 (replicate 32 0)))"
proof -
  from assms obtain p where p: "pad m 1088 = Inr p" "p \<noteq> []" "length p mod 136 = 0"
    by (rule pad_nonempty_multiple)
  have loop: "absorb_loop p 0 new_state = absorb_spec (blocks p) new_state"
    using absorb_loop_blocks [of p 0 new_state] p(3) by simp
  have guard: "\<forall>i j. i < length p \<and> i mod 136 = 0 \<and> j < 136 \<longrightarrow> i + j < length p"
  proof (intro allI impI)
    fix i j :: nat
    assume "i < length p \<and> i mod 136 = 0 \<and> j < 136"
    moreover from this p(3) have "i + 136 \<le> length p"
      by (intro multiple_step) simp_all
    ultimately show "i + j < length p"
      by simp
  qed
  have "sha3_256 m =
          (case absorb_spec (blocks p) new_state of
             Inl e \<Rightarrow> Inl e
           | Inr s \<Rightarrow> Inr (squeeze_loop s 0 0 (replicate 32 0)))"
    using p(1) by (simp add: sha3_256_def RATE_def loop)
  moreover have "concat (blocks p) = p"
    by (rule concat_blocks)
  moreover have "\<forall>b\<in>set (blocks p). length b = 136"
    using length_blocks [OF p(3)] by auto
  ultimately show ?thesis
    using p loop guard by (intro exI [of _ p] conjI)
qed

theorem absorb_full_blocks_witness:
  "length abc < 2 ^ 60 \<and>
   (\<exists>p. pad abc 1088 = Inr p \<and> length p mod 136 = 0 \<and>
        absorb_loop p 0 new_state = absorb_spec (blocks p) new_state)"
proof -
  have small: "length abc < 2 ^ 60"
    by (simp add: abc_def)
  from absorb_full_blocks [OF small] obtain p
    where "pad abc 1088 = Inr p" and "length p mod 136 = 0"
      and "absorb_loop p 0 new_state = absorb_spec (blocks p) new_state"
    by (elim exE conjE)
  then have "\<exists>p. pad abc 1088 = Inr p \<and> length p mod 136 = 0 \<and>
      absorb_loop p 0 new_state = absorb_spec (blocks p) new_state"
    by (intro exI conjI)
  with small show ?thesis
    by (rule conjI)
qed

section \<open>Squeezing\<close>

lemma squeeze_word_bytes:
  "i \<le> 8 \<Longrightarrow> outIndex + (8 - i) \<le> 32 \<Longrightarrow> length out = 32 \<Longrightarrow>
   squeeze_word word i outIndex out =
     (outIndex + (8 - i),
      take outIndex out @ map (\<lambda>k. ucast (drop_bit (k * 8) word)) [i..<8]
        @ drop (outIndex + (8 - i)) out)"
proof (induction word i outIndex out rule: squeeze_word.induct)
  case (1 word i outIndex out)
  show ?case
  proof (cases "i < 8")
    case False
    with "1.prems" have "i = 8" by simp
    then show ?thesis
      by (subst squeeze_word.simps) simp
  next
    case True
    with "1.prems" have oi: "outIndex < 32" "outIndex < length out"
      by simp_all
    have upt: "[i..<8] = i # [Suc i..<8]"
      using True by (simp add: upt_conv_Cons)
    have tk: "take (Suc outIndex) (out[outIndex := v]) = take outIndex out @ [v]" for v
      using oi(2) by (simp add: take_Suc_conv_app_nth)
    have dr: "drop (outIndex + (8 - i)) (out[outIndex := v]) = drop (outIndex + (8 - i)) out" for v
      using True by simp
    have ar: "Suc outIndex + (8 - Suc i) = outIndex + (8 - i)"
      and ar2: "Suc (outIndex + 7 - i) = outIndex + 8 - i"
      using True by simp_all
    have "squeeze_word word (i + 1) (outIndex + 1)
            (out[outIndex := ucast (drop_bit (i * 8) word)]) =
          (outIndex + 1 + (8 - (i + 1)),
           take (outIndex + 1) (out[outIndex := ucast (drop_bit (i * 8) word)])
             @ map (\<lambda>k. ucast (drop_bit (k * 8) word)) [i + 1..<8]
             @ drop (outIndex + 1 + (8 - (i + 1))) (out[outIndex := ucast (drop_bit (i * 8) word)]))"
      using True oi "1.prems" by (intro "1.IH") simp_all
    then show ?thesis
      using True oi by (subst squeeze_word.simps) (simp add: upt tk dr ar ar2)
  qed
qed

lemma length_lane_bytes: "length (lane_bytes w) = 8"
  by (simp add: lane_bytes_def)

lemma squeeze_word_lane:
  assumes "outIndex + 8 \<le> 32" and "length out = 32"
  shows "squeeze_word word 0 outIndex out =
           (outIndex + 8, take outIndex out @ lane_bytes word @ drop (outIndex + 8) out)"
  using squeeze_word_bytes [of 0 outIndex out word] assms
  by (simp add: lane_bytes_def mult.commute)

lemma squeeze_loop_lanes:
  "wordIndex \<le> 4 \<Longrightarrow> outIndex = 8 * wordIndex \<Longrightarrow> length out = 32 \<Longrightarrow>
   squeeze_loop s wordIndex outIndex out =
     take outIndex out
       @ concat (map (\<lambda>w. lane_bytes (lane s (w mod 5) (w div 5))) [wordIndex..<4])"
proof (induction "4 - wordIndex" arbitrary: wordIndex outIndex out)
  case 0
  then have "wordIndex = 4" "outIndex = 32"
    by simp_all
  then show ?case
    using "0.prems"(3) by (subst squeeze_loop.simps) simp
next
  case (Suc n)
  then have wi: "wordIndex < 4" and oi: "outIndex + 8 \<le> 32" "outIndex < 32"
    by simp_all
  define word where "word = lane s (wordIndex mod 5) (wordIndex div 5)"
  define out' where "out' = take outIndex out @ lane_bytes word @ drop (outIndex + 8) out"
  have sw: "squeeze_word word 0 outIndex out = (outIndex + 8, out')"
    unfolding out'_def using oi(1) Suc.prems(3) by (rule squeeze_word_lane)
  have len': "length out' = 32"
    using oi Suc.prems(3) by (simp add: out'_def length_lane_bytes)
  have tk': "take (outIndex + 8) out' = take outIndex out @ lane_bytes word"
    using oi Suc.prems(3) by (simp add: out'_def length_lane_bytes)
  have "squeeze_loop s (Suc wordIndex) (outIndex + 8) out' =
          take (outIndex + 8) out'
            @ concat (map (\<lambda>w. lane_bytes (lane s (w mod 5) (w div 5))) [Suc wordIndex..<4])"
    using Suc.hyps(2) wi Suc.prems(2) len' by (intro Suc.hyps(1)) simp_all
  moreover have "[wordIndex..<4] = wordIndex # [Suc wordIndex..<4]"
    using wi by (simp add: upt_conv_Cons)
  ultimately show ?case
    using oi(2) by (subst squeeze_loop.simps) (simp add: word_def[symmetric] sw tk' Let_def)
qed

lemma squeeze_spec_lanes:
  "squeeze_spec s = concat (map (\<lambda>w. lane_bytes (lane s (w mod 5) (w div 5))) [0..<4])"
proof -
  have "[0..<25] = [0..<4] @ [4..<25]"
    using upt_add_eq_append [of 0 4 21] by simp
  moreover have "length (concat (map (\<lambda>w. lane_bytes (lane s (w mod 5) (w div 5))) [0..<4])) = 32"
    by (simp add: length_concat comp_def length_lane_bytes sum_list_triv)
  ultimately show ?thesis
    by (simp add: squeeze_spec_def)
qed

lemma squeeze_loop_spec: "squeeze_loop s 0 0 (replicate 32 0) = squeeze_spec s"
  using squeeze_loop_lanes [of 0 0 "replicate 32 0" s] by (simp add: squeeze_spec_lanes)

lemma length_squeeze_spec: "length (squeeze_spec s) = 32"
  by (simp add: squeeze_spec_lanes length_concat comp_def length_lane_bytes sum_list_triv)

text \<open>C5. For every message, the empty one included, \<open>sha3_256\<close> returns 32 bytes and
  no error. They are read from the state \<open>s\<close> that the absorb loop returns, which is the
  result of the permutation after the last block: the 8 bytes, least significant first,
  of the lanes with \<open>wordIndex\<close> 0, 1, 2, 3, which are the lanes \<open>(0,0)\<close>, \<open>(1,0)\<close>,
  \<open>(2,0)\<close>, \<open>(3,0)\<close>.\<close>

theorem sha3_256_squeeze:
  assumes "length m < 2 ^ 60"
  shows "\<exists>p s. pad m 1088 = Inr p \<and> absorb_loop p 0 new_state = Inr s \<and>
           (\<exists>bs b t. blocks p = bs @ [b] \<and> absorb_spec bs new_state = Inr t \<and>
                     keccakF1600 (absorb_block_spec b t) = Inr s) \<and>
           sha3_256 m = Inr (squeeze_spec s) \<and> length (squeeze_spec s) = 32 \<and>
           squeeze_spec s =
             lane_bytes (lane s 0 0) @ lane_bytes (lane s 1 0) @ lane_bytes (lane s 2 0)
               @ lane_bytes (lane s 3 0)"
proof -
  from assms obtain p where p: "pad m 1088 = Inr p" "p \<noteq> []" "length p mod 136 = 0"
    by (rule pad_nonempty_multiple)
  have loop: "absorb_loop p 0 new_state = absorb_spec (blocks p) new_state"
    using absorb_loop_blocks [of p 0 new_state] p(3) by simp
  have "blocks p \<noteq> []"
    using p(2) by (subst blocks.simps) simp
  then obtain bs b where bs: "blocks p = bs @ [b]"
    by (cases "blocks p" rule: rev_cases) auto
  obtain t where t: "absorb_spec bs new_state = Inr t"
    by (simp add: absorb_spec_total)
  obtain s where s: "keccakF1600 (absorb_block_spec b t) = Inr s"
    by (simp add: keccakF1600_total)
  have run: "absorb_loop p 0 new_state = Inr s"
    by (simp add: loop bs absorb_spec_snoc t s)
  have out: "sha3_256 m = Inr (squeeze_spec s)"
    using p(1) by (simp add: sha3_256_def RATE_def run squeeze_loop_spec)
  have lanes: "squeeze_spec s =
      lane_bytes (lane s 0 0) @ lane_bytes (lane s 1 0) @ lane_bytes (lane s 2 0)
        @ lane_bytes (lane s 3 0)"
  proof -
    have "[0..<4] = [0, 1, 2, 3]"
      by (simp add: upt_rec numeral_eq_Suc)
    then show ?thesis
      by (simp add: squeeze_spec_lanes)
  qed
  have perm: "\<exists>bs b t. blocks p = bs @ [b] \<and> absorb_spec bs new_state = Inr t \<and>
      keccakF1600 (absorb_block_spec b t) = Inr s"
    using bs t s by (intro exI conjI)
  have len: "length (squeeze_spec s) = 32"
    by (rule length_squeeze_spec)
  from p(1) run perm out len lanes show ?thesis
    by (intro exI [of _ p] exI [of _ s] conjI)
qed

theorem sha3_256_squeeze_witness:
  "length ([] :: byte list) < 2 ^ 60 \<and>
   (\<exists>s. absorb_loop (padding_spec 136) 0 new_state = Inr s \<and>
        sha3_256 [] = Inr (squeeze_spec s) \<and> length (squeeze_spec s) = 32)"
proof -
  have small: "length ([] :: byte list) < 2 ^ 60"
    by simp
  have "pad [] 1088 = Inr (padding_spec 136)"
    using pad_RATE [OF small] by (simp add: RATE_def padLen_spec_eq)
  with sha3_256_squeeze [OF small] show ?thesis
    using small by auto
qed

end
